theory Spec2Isabelle
  imports Main "HOL-Library.Word" "HOL-Library.Multiset"
begin

unbundle bit_operations_syntax

section \<open>qCheck: CRC32 file checksums and checklist verification\<close>

text \<open>
  A shallow embedding of \<^verbatim>\<open>qCheck.cpp\<close>: \<^verbatim>\<open>ChecksumFile\<close>, the checklist
  parser and verifier \<^verbatim>\<open>Check\<close>, and the work-dispatch loop that \<^verbatim>\<open>Check\<close>'s
  worker lambda and \<^verbatim>\<open>ChecksumThread\<close> share. The operating system (file
  size, open, mmap, read) and the C++ standard library (string search, substr,
  from_chars, filesystem paths) are the environment of the code: they are
  modelled as far as the code observes them.
\<close>

text \<open>
  Names are those of the source. Two are taken twice there and qualified here:
  \<^verbatim>\<open>CRC::Checksum\<close> is \<open>CRC_Checksum\<close>, \<open>Checksum\<close> being the field of
  \<^verbatim>\<open>CheckEntry\<close>, and the field \<^verbatim>\<open>Check\<close> of \<^verbatim>\<open>Settings\<close> is \<open>CheckFlag\<close>,
  \<open>Check\<close> being the function.
\<close>

type_synonym byte = "8 word"
type_synonym u32 = "32 word"

subsection \<open>The CRC32 routine\<close>

text \<open>
  Modelled from the spec: \<^verbatim>\<open>CRC::Checksum\<close> (header \<^verbatim>\<open>CRC/CRC32.hpp\<close>) is
  called by \<^verbatim>\<open>ChecksumFile\<close> but is not among the sources. The spec fixes it as the
  standard CRC-32: reflected polynomial \<open>0xEDB88320\<close>, seed 0 for a fresh
  computation, the one's-complement convention on entry and exit. \<open>crc_shift\<close> is
  one bit of the reflected division, \<open>crc_byte\<close> folds one byte in.
\<close>

definition crc_shift :: "u32 \<Rightarrow> u32" where
  "crc_shift c = (if bit c 0 then drop_bit 1 c XOR 0xEDB88320 else drop_bit 1 c)"

definition crc_byte :: "u32 \<Rightarrow> byte \<Rightarrow> u32" where
  "crc_byte c b = (crc_shift ^^ 8) (c XOR ucast b)"

text \<open>
  Modelled from the spec: \<^verbatim>\<open>CRC::Checksum(Data, InitialValue = 0)\<close>, the CRC-32 of
  \<open>Data\<close> continued from the running checksum \<open>InitialValue\<close>.
\<close>

definition CRC_Checksum :: "byte list \<Rightarrow> u32 \<Rightarrow> u32" where
  "CRC_Checksum Data InitialValue = NOT (foldl crc_byte (NOT InitialValue) Data)"

subsection \<open>ChecksumFile\<close>

text \<open>
  What one call of \<^verbatim>\<open>read(FileHandle, Buffer.data(), Buffer.size())\<close> does: it
  places some bytes at the start of the buffer and returns their number, or
  returns 0 at the end of the file, or returns -1.
\<close>

datatype read_result = ReadBytes "byte list" | ReadEof | ReadError

fun ReadCount :: "read_result \<Rightarrow> int" where
  "ReadCount (ReadBytes bs) = int (length bs)"
| "ReadCount ReadEof = 0"
| "ReadCount ReadError = - 1"

fun Buffer :: "read_result \<Rightarrow> byte list" where
  "Buffer (ReadBytes bs) = bs"
| "Buffer ReadEof = []"
| "Buffer ReadError = []"

text \<open>
  What the file system answers for one path: the result of
  \<^verbatim>\<open>std::filesystem::file_size(Path, CurError)\<close> (\<open>None\<close> when \<open>CurError\<close> is
  set), whether \<^verbatim>\<open>open\<close> returns a descriptor, the bytes of the mapping
  (\<open>None\<close> when \<^verbatim>\<open>mmap\<close> returns \<^verbatim>\<open>MAP_FAILED\<close>), and the results of the
  successive \<^verbatim>\<open>read\<close> calls. A regular file is finite: once the listed results
  are used up, \<^verbatim>\<open>read\<close> returns 0.
\<close>

record file_env =
  stat_size :: "nat option"
  open_ok :: bool
  mmap_view :: "byte list option"
  read_results :: "read_result list"

datatype syscall = SysOpen | SysMmap | SysMadvise | SysMunmap | SysRead | SysClose

text \<open>
  The fallback loop of \<^verbatim>\<open>ChecksumFile\<close> (lines 57 to 63): the running checksum
  and the number of \<^verbatim>\<open>read\<close> calls made.
\<close>

fun read_loop :: "u32 \<Rightarrow> read_result list \<Rightarrow> u32 \<times> nat" where
  "read_loop CRC32 [] = (CRC32, 1)"
| "read_loop CRC32 (r # rs) =
     (if ReadCount r > 0
      then (let (c, n) = read_loop (CRC_Checksum (take (nat (ReadCount r)) (Buffer r)) CRC32) rs
            in (c, Suc n))
      else (CRC32, 1))"

text \<open>The next \<^verbatim>\<open>read\<close> delivers no byte: it returns 0 or fails.\<close>

definition no_more_bytes :: "read_result list \<Rightarrow> bool" where
  "no_more_bytes rs = (case rs of [] \<Rightarrow> True | r # _ \<Rightarrow> ReadCount r \<le> 0)"

text \<open>
  \<^verbatim>\<open>ChecksumFile\<close>: the returned optional and the system calls made on the way.
  The overload of \<^verbatim>\<open>file_size\<close> with an error code does not throw; no other call
  of the function can throw.
\<close>

definition ChecksumFile :: "file_env \<Rightarrow> u32 option \<times> syscall list" where
  "ChecksumFile f =
     (case stat_size f of
        None \<Rightarrow> (None, [])
      | Some FileSize \<Rightarrow>
          if \<not> open_ok f then (None, [SysOpen])
          else (case mmap_view f of
                  Some FileData \<Rightarrow>
                    (Some (CRC_Checksum FileData 0),
                     [SysOpen, SysMmap, SysMadvise, SysMunmap, SysClose])
                | None \<Rightarrow>
                    (let (CRC32, n) = read_loop 0 (read_results f)
                     in (Some CRC32, [SysOpen, SysMmap] @ replicate n SysRead @ [SysClose]))))"

subsection \<open>The standard library as Check uses it\<close>

text \<open>
  \<^verbatim>\<open>std::string::npos\<close> is the largest \<^verbatim>\<open>std::size_t\<close>. \<open>find_last_of\<close> is
  \<^verbatim>\<open>CurLine.find_last_of(' ')\<close>: the index of the last occurrence, or \<open>npos\<close>.
\<close>

definition npos :: nat where
  "npos = 2 ^ 64 - 1"

definition find_last_of :: "string \<Rightarrow> char \<Rightarrow> nat" where
  "find_last_of s c =
     (if c \<in> set s then length s - Suc (length (takeWhile (\<lambda>x. x \<noteq> c) (rev s))) else npos)"

datatype exn = out_of_range

text \<open>
  \<^verbatim>\<open>std::string_view::substr(pos, n)\<close>: throws when \<open>pos\<close> is beyond the end,
  otherwise the \<open>n\<close> characters from \<open>pos\<close>, or as many as there are.
\<close>

definition substr :: "string \<Rightarrow> nat \<Rightarrow> nat \<Rightarrow> exn + string" where
  "substr s pos n = (if length s < pos then Inl out_of_range else Inr (take n (drop pos s)))"

datatype errc = errc_none | invalid_argument | result_out_of_range

definition hex_digit :: "char \<Rightarrow> nat option" where
  "hex_digit c =
     (let n = (of_char c :: nat) in
      if 48 \<le> n \<and> n \<le> 57 then Some (n - 48)
      else if 97 \<le> n \<and> n \<le> 102 then Some (n - 87)
      else if 65 \<le> n \<and> n \<le> 70 then Some (n - 55)
      else None)"

text \<open>The longest prefix of hexadecimal digits, as digit values.\<close>

fun hex_prefix :: "string \<Rightarrow> nat list" where
  "hex_prefix [] = []"
| "hex_prefix (c # cs) = (case hex_digit c of None \<Rightarrow> [] | Some d \<Rightarrow> d # hex_prefix cs)"

definition hex_value :: "nat list \<Rightarrow> nat" where
  "hex_value ds = foldl (\<lambda>a d. 16 * a + d) 0 ds"

text \<open>
  \<^verbatim>\<open>std::from_chars<std::uint32_t>(first, last, value, 16)\<close>: the error code and
  the content of \<open>value\<close> afterwards. The longest prefix of hexadecimal digits is
  the number (no sign, no \<^verbatim>\<open>0x\<close>); no digit at all is \<open>invalid_argument\<close>, a
  number that does not fit 32 bits is \<open>result_out_of_range\<close>, and in both cases
  \<open>value\<close> is left alone. What follows the digits is not looked at: the call
  reports where it stopped, and \<^verbatim>\<open>Check\<close> does not read that.
\<close>

definition from_chars :: "string \<Rightarrow> u32 \<Rightarrow> errc \<times> u32" where
  "from_chars s val =
     (let ds = hex_prefix s in
      if ds = [] then (invalid_argument, val)
      else if hex_value ds < 2 ^ 32 then (errc_none, of_nat (hex_value ds))
      else (result_out_of_range, val))"

text \<open>
  \<^verbatim>\<open>std::filesystem::path\<close> on POSIX, a path being its native string.
  \<open>parent_path\<close> is the path itself when it names nothing below the root, and
  otherwise the path without its last element and the separators before it;
  \<open>path_append\<close> is \<^verbatim>\<open>operator/=\<close>: an absolute right-hand side replaces the
  path, a relative one is appended after a separator where the path ends in a
  file name.
\<close>

definition has_relative_path :: "string \<Rightarrow> bool" where
  "has_relative_path p = (\<exists>c\<in>set p. c \<noteq> CHR ''/'')"

definition parent_path :: "string \<Rightarrow> string" where
  "parent_path p =
     (if \<not> has_relative_path p then p
      else (let pre = rev (dropWhile (\<lambda>c. c = CHR ''/'')
                            (dropWhile (\<lambda>c. c \<noteq> CHR ''/'') (rev p)))
            in if pre = [] \<and> hd p = CHR ''/'' then ''/'' else pre))"

definition has_parent_path :: "string \<Rightarrow> bool" where
  "has_parent_path p = (parent_path p \<noteq> [])"

definition is_absolute :: "string \<Rightarrow> bool" where
  "is_absolute p = (case p of [] \<Rightarrow> False | c # _ \<Rightarrow> c = CHR ''/'')"

definition has_filename :: "string \<Rightarrow> bool" where
  "has_filename p = (p \<noteq> [] \<and> last p \<noteq> CHR ''/'')"

definition path_append :: "string \<Rightarrow> string \<Rightarrow> string" where
  "path_append p q =
     (if is_absolute q then q
      else (if has_filename p then p @ ''/'' else p) @ q)"

subsection \<open>Check: reading the checklists\<close>

record CheckEntry =
  FilePath :: string
  Checksum :: u32

text \<open>
  The body of the \<^verbatim>\<open>getline\<close> loop (lines 97 to 123) for one line: \<open>Inr None\<close>
  is \<^verbatim>\<open>continue\<close>, \<open>Inr (Some e)\<close> is \<^verbatim>\<open>Checkqueue.push_back(e)\<close>, \<open>Inl\<close> an
  exception leaving the loop. \<^verbatim>\<open>CurLine[0]\<close> of an empty line is the
  terminating zero; \<open>BreakPos + 1\<close> is computed in \<^verbatim>\<open>std::size_t\<close>; \<open>CheckValue\<close>
  starts as \<^verbatim>\<open>~0u\<close>.
\<close>

definition parse_line :: "string \<Rightarrow> string \<Rightarrow> exn + CheckEntry option" where
  "parse_line CurSfvPath CurLine =
     (if (case CurLine of [] \<Rightarrow> CHR 0x00 | c # _ \<Rightarrow> c) = CHR '';'' then Inr None
      else
        (let BreakPos = find_last_of CurLine CHR '' '' in
         case substr CurLine 0 BreakPos of
           Inl e \<Rightarrow> Inl e
         | Inr PathString \<Rightarrow>
            (case substr CurLine ((BreakPos + 1) mod 2 ^ 64) npos of
               Inl e \<Rightarrow> Inl e
             | Inr CheckString \<Rightarrow>
                (let (ec, CheckValue) = from_chars CheckString (NOT 0) in
                 if ec \<noteq> errc_none then Inr None
                 else Inr (Some \<lparr>FilePath =
                                   path_append
                                     (if has_parent_path CurSfvPath
                                      then parent_path CurSfvPath else ''.'')
                                     PathString,
                                 Checksum = CheckValue\<rparr>)))))"

text \<open>
  The words of the checklist grammar: a comment line, and the text after and
  before the last space of a line (the whole line when it has no space).
\<close>

definition is_comment :: "string \<Rightarrow> bool" where
  "is_comment s = (case s of [] \<Rightarrow> False | c # _ \<Rightarrow> c = CHR '';'')"

definition after_last_space :: "string \<Rightarrow> string" where
  "after_last_space s = rev (takeWhile (\<lambda>c. c \<noteq> CHR '' '') (rev s))"

definition before_last_space :: "string \<Rightarrow> string" where
  "before_last_space s =
     (if CHR '' '' \<in> set s then rev (tl (dropWhile (\<lambda>c. c \<noteq> CHR '' '') (rev s))) else s)"

fun queue_lines :: "string \<Rightarrow> string list \<Rightarrow> CheckEntry list \<Rightarrow> exn + CheckEntry list" where
  "queue_lines CurSfvPath [] Checkqueue = Inr Checkqueue"
| "queue_lines CurSfvPath (CurLine # ls) Checkqueue =
     (case parse_line CurSfvPath CurLine of
        Inl e \<Rightarrow> Inl e
      | Inr None \<Rightarrow> queue_lines CurSfvPath ls Checkqueue
      | Inr (Some entry) \<Rightarrow> queue_lines CurSfvPath ls (Checkqueue @ [entry]))"

text \<open>
  The loop over \<^verbatim>\<open>CurSettings.InputFiles\<close> (lines 84 to 125). A checklist is
  what \<^verbatim>\<open>std::ifstream\<close> and \<^verbatim>\<open>std::getline\<close> give for its path: \<open>None\<close> when the
  stream cannot be opened, otherwise its lines.
\<close>

datatype abort = OpenFailed string | Uncaught exn

fun queue_files ::
  "(string \<Rightarrow> string list option) \<Rightarrow> string list \<Rightarrow> CheckEntry list \<Rightarrow> abort + CheckEntry list"
where
  "queue_files checklist [] Checkqueue = Inr Checkqueue"
| "queue_files checklist (CurSfvPath # ps) Checkqueue =
     (case checklist CurSfvPath of
        None \<Rightarrow> Inl (OpenFailed CurSfvPath)
      | Some ls \<Rightarrow>
          (case queue_lines CurSfvPath ls Checkqueue of
             Inl e \<Rightarrow> Inl (Uncaught e)
           | Inr Checkqueue' \<Rightarrow> queue_files checklist ps Checkqueue'))"

subsection \<open>The work-dispatch loop\<close>

text \<open>
  The loop of \<^verbatim>\<open>Check\<close>'s worker lambda (lines 139 to 165) and of
  \<^verbatim>\<open>ChecksumThread\<close> (lines 185 to 221) is the same code over a shared
  \<^verbatim>\<open>std::atomic<std::size_t>\<close>, called \<open>QueueLock\<close> in the one and \<open>FileIndex\<close> in
  the other, and a list of \<open>N\<close> jobs. The threads are modelled by interleaving.
  A worker is either about to call \<^verbatim>\<open>fetch_add(1)\<close>, or holds the \<open>EntryIndex\<close> it
  got and is about to test it, or has returned. \<^verbatim>\<open>fetch_add\<close> is one step: it
  yields the old value and stores the successor, in \<^verbatim>\<open>std::size_t\<close>. The test and
  the job that follows it touch nothing shared and are the worker's next step,
  which records the worker and the index of the job it ran.
\<close>

datatype worker = Claiming | Holding nat | Exited

record dispatch =
  QueueLock :: nat
  workers :: "worker list"
  executed :: "(nat \<times> nat) list"

definition worker_step :: "nat \<Rightarrow> nat \<Rightarrow> dispatch \<Rightarrow> dispatch" where
  "worker_step N w s =
     (if length (workers s) \<le> w then s
      else (case workers s ! w of
              Claiming \<Rightarrow>
                s\<lparr>QueueLock := (QueueLock s + 1) mod 2 ^ 64,
                  workers := (workers s)[w := Holding (QueueLock s)]\<rparr>
            | Holding EntryIndex \<Rightarrow>
                if EntryIndex \<ge> N then s\<lparr>workers := (workers s)[w := Exited]\<rparr>
                else s\<lparr>workers := (workers s)[w := Claiming],
                       executed := executed s @ [(w, EntryIndex)]\<rparr>
            | Exited \<Rightarrow> s))"

text \<open>
  A schedule names the worker that takes each step. The run starts with the
  cursor at zero and every worker about to claim, and is over when every
  worker has returned: that is when the \<^verbatim>\<open>join\<close> loop ends.
\<close>

fun run :: "nat \<Rightarrow> nat list \<Rightarrow> dispatch \<Rightarrow> dispatch" where
  "run N [] s = s"
| "run N (w # sched) s = run N sched (worker_step N w s)"

definition dispatch_init :: "nat \<Rightarrow> dispatch" where
  "dispatch_init T = \<lparr>QueueLock = 0, workers = replicate T Claiming, executed = []\<rparr>"

definition all_exited :: "dispatch \<Rightarrow> bool" where
  "all_exited s = list_all (\<lambda>w. w = Exited) (workers s)"

definition executed_indices :: "dispatch \<Rightarrow> nat list" where
  "executed_indices s = map snd (executed s)"

text \<open>
  What the run keeps true. \<open>held_in\<close> is the job index a worker holds, if it is
  one of the \<open>N\<close> jobs, and \<open>claimed\<close> counts the claim of a worker that holds an
  index or has returned: a worker that returned made one claim that ran no job.
  The indices of the jobs run and those held are together the jobs below the
  cursor, and the cursor counts the claims. \<open>steps_done\<close> counts the steps
  taken so far: the claims, the jobs run and the returns.
\<close>

fun held_in :: "nat \<Rightarrow> worker \<Rightarrow> nat multiset" where
  "held_in N Claiming = {#}"
| "held_in N (Holding i) = (if i < N then {#i#} else {#})"
| "held_in N Exited = {#}"

fun claimed :: "worker \<Rightarrow> nat" where
  "claimed Claiming = 0"
| "claimed (Holding i) = 1"
| "claimed Exited = 1"

definition inv_core :: "nat \<Rightarrow> nat \<Rightarrow> nat multiset \<Rightarrow> worker multiset \<Rightarrow> bool" where
  "inv_core N c E M \<longleftrightarrow>
     E + (\<Sum>w\<in>#M. held_in N w) = mset [0..<min c N] \<and> c = size E + (\<Sum>w\<in>#M. claimed w)"

definition dispatch_inv :: "nat \<Rightarrow> dispatch \<Rightarrow> bool" where
  "dispatch_inv N s = inv_core N (QueueLock s) (mset (executed_indices s)) (mset (workers s))"

definition steps_done :: "dispatch \<Rightarrow> nat" where
  "steps_done s = QueueLock s + length (executed s) + count (mset (workers s)) Exited"

subsection \<open>Check: verifying the entries\<close>

record Settings =
  InputFiles :: "string list"
  Threads :: nat
  Verbose :: bool
  CheckFlag :: bool

text \<open>
  The two \<^verbatim>\<open>printf\<close> calls of the worker (lines 149 to 164) print the path and
  the expected checksum, and then either the computed checksum with \<^verbatim>\<open>OK\<close> or
  \<^verbatim>\<open>FAIL\<close>, or \<^verbatim>\<open>Error opening file\<close>. A printed line is kept as its fields and
  its verdict; the colour codes are left out. \<open>Valid\<close> compares a
  \<^verbatim>\<open>std::uint32_t\<close> with a \<^verbatim>\<open>std::optional\<close>.
\<close>

datatype verdict = OK | FAIL | ERROR

datatype output_line =
    ResultLine string u32 "u32 option" verdict
  | FailedToOpen string

definition report :: "CheckEntry \<Rightarrow> u32 option \<Rightarrow> output_line" where
  "report CurEntry CurSum =
     (case CurSum of
        Some v \<Rightarrow>
          (let Valid = (Some (Checksum CurEntry) = CurSum)
           in ResultLine (FilePath CurEntry) (Checksum CurEntry) (Some v)
                (if Valid then OK else FAIL))
      | None \<Rightarrow> ResultLine (FilePath CurEntry) (Checksum CurEntry) None ERROR)"

definition verdict_of :: "output_line \<Rightarrow> verdict option" where
  "verdict_of l = (case l of ResultLine p e c v \<Rightarrow> Some v | FailedToOpen p \<Rightarrow> None)"

record check_env =
  checklists :: "string \<Rightarrow> string list option"
  files :: "string \<Rightarrow> file_env"

definition EXIT_SUCCESS :: int where
  "EXIT_SUCCESS = 0"

definition EXIT_FAILURE :: int where
  "EXIT_FAILURE = 1"

datatype exit = Return int | Terminate exn

definition worker_output :: "check_env \<Rightarrow> CheckEntry list \<Rightarrow> nat \<Rightarrow> output_line" where
  "worker_output env Checkqueue EntryIndex =
     (let CurEntry = Checkqueue ! EntryIndex;
          CurSum = fst (ChecksumFile (files env (FilePath CurEntry)))
      in report CurEntry CurSum)"

text \<open>
  \<^verbatim>\<open>Check\<close> under a schedule of its workers: how the call ends and what was
  printed, or \<open>None\<close> when the schedule leaves a worker running, so that the
  \<^verbatim>\<open>join\<close> loop does not end.
\<close>

definition Check :: "check_env \<Rightarrow> Settings \<Rightarrow> nat list \<Rightarrow> (exit \<times> output_line list) option" where
  "Check env CurSettings sched =
     (case queue_files (checklists env) (InputFiles CurSettings) [] of
        Inl (OpenFailed CurSfvPath) \<Rightarrow> Some (Return EXIT_FAILURE, [FailedToOpen CurSfvPath])
      | Inl (Uncaught e) \<Rightarrow> Some (Terminate e, [])
      | Inr Checkqueue \<Rightarrow>
          (let s = run (length Checkqueue) sched (dispatch_init (Threads CurSettings))
           in if all_exited s
              then Some (Return EXIT_SUCCESS,
                         map (worker_output env Checkqueue) (executed_indices s))
              else None))"

text \<open>
  A checklist to run the model on: one comment and two entries, the first for a
  file that holds the bytes of "123456789" and the second for a file that is not
  there. No other checklist exists.
\<close>

definition example_env :: check_env where
  "example_env =
     \<lparr>checklists = (\<lambda>p. if p = ''/data/list.sfv''
                         then Some [''; made by hand'', ''photo.jpg 1A2B3C4D'', ''gone.bin 00000000'']
                         else None),
      files = (\<lambda>p. if p = ''/data/photo.jpg''
                    then \<lparr>stat_size = Some 9, open_ok = True,
                          mmap_view = Some [49, 50, 51, 52, 53, 54, 55, 56, 57],
                          read_results = []\<rparr>
                    else \<lparr>stat_size = None, open_ok = False, mmap_view = None,
                          read_results = []\<rparr>)\<rparr>"

definition example_settings :: "string list \<Rightarrow> nat \<Rightarrow> Settings" where
  "example_settings paths T = \<lparr>InputFiles = paths, Threads = T, Verbose = True, CheckFlag = True\<rparr>"

section \<open>Verification\<close>

subsection \<open>The CRC32 model\<close>

lemma crc_empty: "CRC_Checksum [] s = s"
  by (simp add: CRC_Checksum_def)

lemma funpow8: "(f ^^ 8) x = f (f (f (f (f (f (f (f x)))))))"
  by (simp add: eval_nat_numeral)

text \<open>The model meets the standard check value of CRC-32, the ASCII bytes of "123456789".\<close>

lemma crc_check_vector:
  "CRC_Checksum [49, 50, 51, 52, 53, 54, 55, 56, 57] 0 = 0xCBF43926"
  by (simp add: CRC_Checksum_def crc_byte_def crc_shift_def funpow8)

text \<open>
  Chaining: the complement taken on leaving one call is undone on entering the
  next, so the register runs through the chunks as through one sequence.
\<close>

lemma crc_chain: "CRC_Checksum ys (CRC_Checksum xs s) = CRC_Checksum (xs @ ys) s"
  by (simp add: CRC_Checksum_def)

lemma crc_chain_foldl:
  "foldl (\<lambda>crc c. CRC_Checksum c crc) s chunks = CRC_Checksum (concat chunks) s"
  by (induction chunks arbitrary: s) (simp_all add: crc_empty crc_chain)

subsection \<open>ChecksumFile\<close>

lemma read_loop_stops: "no_more_bytes rs \<Longrightarrow> read_loop s rs = (s, 1)"
  by (cases rs) (simp_all add: no_more_bytes_def)

lemma read_loop_chunks:
  assumes "\<forall>c\<in>set chunks. c \<noteq> []" and "no_more_bytes rest"
  shows "read_loop s (map ReadBytes chunks @ rest)
           = (CRC_Checksum (concat chunks) s, Suc (length chunks))"
  using assms
proof (induction chunks arbitrary: s)
  case Nil
  then show ?case by (simp add: read_loop_stops crc_empty)
next
  case (Cons c cs)
  then show ?case by (simp add: crc_chain)
qed

lemma ChecksumFile_fallback:
  assumes "stat_size f = Some FileSize" and "open_ok f" and "mmap_view f = None"
  shows "ChecksumFile f =
           (Some (fst (read_loop 0 (read_results f))),
            [SysOpen, SysMmap] @ replicate (snd (read_loop 0 (read_results f))) SysRead
              @ [SysClose])"
  using assms by (simp add: ChecksumFile_def split: prod.splits)

text \<open>
  Claim C2. Whenever the mapping fails and the reads deliver a byte sequence in
  any number of non-empty chunks before the read that delivers nothing,
  \<^verbatim>\<open>ChecksumFile\<close> returns the CRC32 of the concatenation of the chunks: feeding
  the chunks one after the other, each with the checksum of those before it as
  seed and starting from 0, is the single pass over the whole sequence.
\<close>

theorem chained_crc_equals_single_pass:
  assumes "stat_size f = Some FileSize" and "open_ok f" and "mmap_view f = None"
    and "read_results f = map ReadBytes chunks @ rest"
    and "\<forall>c\<in>set chunks. c \<noteq> []"
    and "no_more_bytes rest"
  shows "fst (ChecksumFile f) = Some (CRC_Checksum (concat chunks) 0)
       \<and> foldl (\<lambda>crc c. CRC_Checksum c crc) 0 chunks = CRC_Checksum (concat chunks) 0"
  using assms by (simp add: ChecksumFile_fallback read_loop_chunks crc_chain_foldl)

theorem chained_crc_equals_single_pass_witness:
  "fst (ChecksumFile \<lparr>stat_size = Some 9, open_ok = True, mmap_view = None,
      read_results = [ReadBytes [49, 50, 51, 52], ReadBytes [53, 54, 55, 56, 57], ReadEof]\<rparr>)
     = Some 0xCBF43926"
  using chained_crc_equals_single_pass
    [of "\<lparr>stat_size = Some 9, open_ok = True, mmap_view = None,
      read_results = [ReadBytes [49, 50, 51, 52], ReadBytes [53, 54, 55, 56, 57], ReadEof]\<rparr>"
      9 "[[49, 50, 51, 52], [53, 54, 55, 56, 57]]" "[ReadEof]"]
  by (simp add: crc_check_vector no_more_bytes_def)

text \<open>
  Claim C8. When the size of the file cannot be determined, or \<^verbatim>\<open>open\<close> fails,
  \<^verbatim>\<open>ChecksumFile\<close> returns the empty optional at once: it maps nothing and reads
  nothing. The function has no other way out than its return values.
\<close>

theorem unreadable_file_has_no_checksum:
  assumes "stat_size f = None \<or> \<not> open_ok f"
  shows "fst (ChecksumFile f) = None \<and> set (snd (ChecksumFile f)) \<subseteq> {SysOpen}"
  using assms by (auto simp: ChecksumFile_def split: option.splits)

theorem unreadable_file_has_no_checksum_witness:
  "fst (ChecksumFile \<lparr>stat_size = None, open_ok = True, mmap_view = Some [1],
      read_results = [ReadBytes [1], ReadEof]\<rparr>) = None
   \<and> fst (ChecksumFile \<lparr>stat_size = Some 1, open_ok = False, mmap_view = Some [1],
      read_results = [ReadBytes [1], ReadEof]\<rparr>) = None"
  using unreadable_file_has_no_checksum
    [of "\<lparr>stat_size = None, open_ok = True, mmap_view = Some [1],
      read_results = [ReadBytes [1], ReadEof]\<rparr>"]
    unreadable_file_has_no_checksum
    [of "\<lparr>stat_size = Some 1, open_ok = False, mmap_view = Some [1],
      read_results = [ReadBytes [1], ReadEof]\<rparr>"]
  by simp

text \<open>
  Claim C9. For a file of size 0 that can be opened, \<^verbatim>\<open>ChecksumFile\<close> returns the
  checksum 0, the CRC32 of the empty input: the mapping fails and the first read
  delivers nothing, so the accumulator keeps its initial value (and a mapping of
  no bytes, were it to succeed, gives 0 as well).
\<close>

theorem empty_file_checksum_is_zero:
  assumes "stat_size f = Some 0" and "open_ok f"
    and "mmap_view f = None \<or> mmap_view f = Some []"
    and "no_more_bytes (read_results f)"
  shows "fst (ChecksumFile f) = Some 0 \<and> CRC_Checksum [] 0 = 0"
  using assms by (auto simp: ChecksumFile_def read_loop_stops crc_empty)

theorem empty_file_checksum_is_zero_witness:
  "fst (ChecksumFile \<lparr>stat_size = Some 0, open_ok = True, mmap_view = None,
      read_results = [ReadEof]\<rparr>) = Some 0"
  using empty_file_checksum_is_zero
    [of "\<lparr>stat_size = Some 0, open_ok = True, mmap_view = None, read_results = [ReadEof]\<rparr>"]
  by (simp add: no_more_bytes_def)

text \<open>
  Claim C10. On the fallback path, when a read fails after any number of reads
  that delivered bytes, \<^verbatim>\<open>ChecksumFile\<close> reads no further, closes the descriptor
  and returns the CRC32 of the bytes read so far as a checksum, not as a
  failure: result and system calls are those for a file that ends there.
\<close>

theorem failed_read_returns_partial_checksum:
  assumes "stat_size f = Some FileSize" and "open_ok f" and "mmap_view f = None"
    and "read_results f = map ReadBytes chunks @ ReadError # rest"
    and "\<forall>c\<in>set chunks. c \<noteq> []"
  shows "ChecksumFile f =
           (Some (CRC_Checksum (concat chunks) 0),
            [SysOpen, SysMmap] @ replicate (Suc (length chunks)) SysRead @ [SysClose])
       \<and> ChecksumFile f = ChecksumFile (f\<lparr>read_results := map ReadBytes chunks @ [ReadEof]\<rparr>)"
proof -
  have e: "no_more_bytes (ReadError # rest)" and z: "no_more_bytes [ReadEof]"
    by (simp_all add: no_more_bytes_def)
  have l: "read_loop 0 (read_results f) = (CRC_Checksum (concat chunks) 0, Suc (length chunks))"
    using assms(4) read_loop_chunks [OF assms(5) e] by simp
  have r: "read_loop 0 (map ReadBytes chunks @ [ReadEof])
             = (CRC_Checksum (concat chunks) 0, Suc (length chunks))"
    using read_loop_chunks [OF assms(5) z] by simp
  show ?thesis
    using assms(1-3) l r by (simp add: ChecksumFile_def)
qed

theorem failed_read_returns_partial_checksum_witness:
  "ChecksumFile \<lparr>stat_size = Some 9, open_ok = True, mmap_view = None,
      read_results = [ReadBytes [49, 50, 51, 52, 53, 54, 55, 56, 57], ReadError]\<rparr>
     = (Some 0xCBF43926, [SysOpen, SysMmap, SysRead, SysRead, SysClose])"
  using failed_read_returns_partial_checksum
    [of "\<lparr>stat_size = Some 9, open_ok = True, mmap_view = None,
      read_results = [ReadBytes [49, 50, 51, 52, 53, 54, 55, 56, 57], ReadError]\<rparr>"
      9 "[[49, 50, 51, 52, 53, 54, 55, 56, 57]]" "[]"]
  by (simp add: crc_check_vector)

subsection \<open>Check: reading the checklists\<close>

lemma first_char_comment:
  "((case s of [] \<Rightarrow> CHR 0x00 | c # _ \<Rightarrow> c) = CHR '';'') = is_comment s"
  by (cases s) (simp_all add: is_comment_def)

lemma takeWhile_stops: "x \<in> set xs \<Longrightarrow> \<not> P x \<Longrightarrow> length (takeWhile P xs) < length xs"
  by (induction xs) auto

lemma takeWhile_short:
  "c \<in> set s \<Longrightarrow> length (takeWhile (\<lambda>x. x \<noteq> c) (rev s)) < length s"
  using takeWhile_stops [of c "rev s" "\<lambda>x. x \<noteq> c"] by simp

lemma find_last_of_lt: "c \<in> set s \<Longrightarrow> find_last_of s c < length s"
  by (simp add: find_last_of_def) (metis diff_Suc_less length_pos_if_in_set)

lemma take_find_last_of:
  assumes "c \<in> set s"
  shows "take (find_last_of s c) s = rev (tl (dropWhile (\<lambda>x. x \<noteq> c) (rev s)))"
proof -
  let ?k = "length (takeWhile (\<lambda>x. x \<noteq> c) (rev s))"
  have k: "?k < length s" using assms by (rule takeWhile_short)
  have "dropWhile (\<lambda>x. x \<noteq> c) (rev s) = drop ?k (rev s)"
    by (rule dropWhile_eq_drop)
  then have "tl (dropWhile (\<lambda>x. x \<noteq> c) (rev s)) = drop (Suc ?k) (rev s)"
    by (simp add: drop_Suc tl_drop)
  then have "rev (tl (dropWhile (\<lambda>x. x \<noteq> c) (rev s))) = take (length s - Suc ?k) s"
    by (simp add: rev_drop)
  then show ?thesis using assms by (simp add: find_last_of_def)
qed

lemma drop_find_last_of:
  assumes "c \<in> set s"
  shows "drop (Suc (find_last_of s c)) s = rev (takeWhile (\<lambda>x. x \<noteq> c) (rev s))"
proof -
  let ?k = "length (takeWhile (\<lambda>x. x \<noteq> c) (rev s))"
  have k: "?k < length s" using assms by (rule takeWhile_short)
  have "rev (take ?k (rev s)) = drop (length s - ?k) s"
    by (simp add: rev_take)
  moreover have "take ?k (rev s) = takeWhile (\<lambda>x. x \<noteq> c) (rev s)"
    by (rule takeWhile_eq_take [symmetric])
  ultimately have "rev (takeWhile (\<lambda>x. x \<noteq> c) (rev s)) = drop (length s - ?k) s"
    by simp
  moreover have "Suc (length s - Suc ?k) = length s - ?k" using k by simp
  ultimately show ?thesis using assms by (simp add: find_last_of_def)
qed

lemma no_space_after:
  assumes "c \<notin> set s"
  shows "rev (takeWhile (\<lambda>x. x \<noteq> c) (rev s)) = s"
proof -
  have t: "takeWhile (\<lambda>x. x \<noteq> c) (rev s) = rev s"
    using assms by (auto simp: takeWhile_eq_all_conv)
  show ?thesis unfolding t by (rule rev_rev_ident)
qed

lemma npos_wraps: "(npos + 1) mod 2 ^ 64 = 0"
  by (simp add: npos_def)

lemma PathString_eq:
  "length s < 2 ^ 64 \<Longrightarrow> substr s 0 (find_last_of s CHR '' '') = Inr (before_last_space s)"
  by (simp add: substr_def before_last_space_def take_find_last_of)
     (simp add: find_last_of_def npos_def)

lemma CheckString_eq:
  assumes "length s < 2 ^ 64"
  shows "substr s ((find_last_of s CHR '' '' + 1) mod 2 ^ 64) npos = Inr (after_last_space s)"
proof (cases "CHR '' '' \<in> set s")
  case True
  then have lt: "find_last_of s CHR '' '' < length s" by (rule find_last_of_lt)
  with assms have m: "(find_last_of s CHR '' '' + 1) mod 2 ^ 64 = Suc (find_last_of s CHR '' '')"
    by simp
  have "length (takeWhile (\<lambda>x. x \<noteq> CHR '' '') (rev s)) \<le> npos"
    using assms length_takeWhile_le [of "\<lambda>x. x \<noteq> CHR '' ''" "rev s"] by (simp add: npos_def)
  then show ?thesis
    using lt True unfolding m by (simp add: substr_def after_last_space_def drop_find_last_of)
next
  case False
  then have "find_last_of s CHR '' '' = npos" by (simp add: find_last_of_def)
  then show ?thesis
    using False assms by (simp add: npos_wraps substr_def after_last_space_def no_space_after npos_def)
qed

lemma parse_line_eq:
  assumes "length CurLine < 2 ^ 64"
  shows "parse_line CurSfvPath CurLine =
     (if is_comment CurLine then Inr None
      else (case from_chars (after_last_space CurLine) (NOT 0) of
              (ec, CheckValue) \<Rightarrow>
                if ec \<noteq> errc_none then Inr None
                else Inr (Some \<lparr>FilePath =
                                  path_append
                                    (if has_parent_path CurSfvPath
                                     then parent_path CurSfvPath else ''.'')
                                    (before_last_space CurLine),
                                Checksum = CheckValue\<rparr>)))"
  unfolding parse_line_def first_char_comment Let_def
  by (simp only: PathString_eq [OF assms] CheckString_eq [OF assms] sum.case)

lemma parse_line_no_throw: "parse_line CurSfvPath CurLine \<noteq> Inl e"
proof -
  have a: "\<not> length CurLine < 0" by simp
  have b: "(find_last_of CurLine CHR '' '' + 1) mod 2 ^ 64 \<le> length CurLine"
  proof (cases "CHR '' '' \<in> set CurLine")
    case True
    then have "find_last_of CurLine CHR '' '' + 1 \<le> length CurLine"
      using find_last_of_lt [of "CHR '' ''" CurLine] by simp
    moreover have "(find_last_of CurLine CHR '' '' + 1) mod 2 ^ 64 \<le> find_last_of CurLine CHR '' '' + 1"
      by (rule mod_less_eq_dividend)
    ultimately show ?thesis by (rule order_trans[rotated])
  next
    case False
    then show ?thesis by (simp add: find_last_of_def npos_def)
  qed
  show ?thesis
    using b by (simp add: parse_line_def substr_def Let_def split: prod.splits)
qed




lemma parse_line_value:
  assumes "length CurLine < 2 ^ 64" and "\<not> is_comment CurLine"
    and "after_last_space CurLine = cs" and "before_last_space CurLine = ps"
    and "hex_prefix cs = ds" and "ds \<noteq> []" and "hex_value ds = n" and "n < 2 ^ 32"
    and "path_append (if has_parent_path CurSfvPath then parent_path CurSfvPath else ''.'') ps = fp"
  shows "parse_line CurSfvPath CurLine = Inr (Some \<lparr>FilePath = fp, Checksum = of_nat n\<rparr>)"
  using assms(2-) by (simp add: parse_line_eq [OF assms(1)] from_chars_def Let_def)




text \<open>
  Claim C4 on the line \<open>DEADBEEF\<close>, which has no space: \<open>BreakPos\<close> is \<open>npos\<close>,
  \<open>BreakPos + 1\<close> wraps to 0, path text and checksum text are both the whole
  line, and the line is queued as the file \<open>DEADBEEF\<close> with checksum
  \<open>0xDEADBEEF\<close>.
\<close>

theorem unsplittable_hex_line_is_queued:
  "parse_line ''/data/list.sfv'' ''DEADBEEF''
     = Inr (Some \<lparr>FilePath = ''/data/DEADBEEF'', Checksum = 0xDEADBEEF\<rparr>)
   \<and> CHR '' '' \<notin> set ''DEADBEEF''"
  using parse_line_value [where n = 3735928559 and ds = "[13, 14, 10, 13, 11, 14, 14, 15]"
       and cs = "''DEADBEEF''" and ps = "''DEADBEEF''" and CurLine = "''DEADBEEF''"
       and CurSfvPath = "''/data/list.sfv''" and fp = "''/data/DEADBEEF''"]
  by (simp add: is_comment_def after_last_space_def before_last_space_def hex_digit_def
        hex_value_def has_parent_path_def parent_path_def has_relative_path_def path_append_def
        is_absolute_def has_filename_def)

lemmas path_defs = has_parent_path_def parent_path_def has_relative_path_def path_append_def
  is_absolute_def has_filename_def

lemma parse_bare_checklist:
  "parse_line ''list.sfv'' ''photo.jpg 1A2B3C4D''
     = Inr (Some \<lparr>FilePath = ''./photo.jpg'', Checksum = 0x1A2B3C4D\<rparr>)"
  using parse_line_value [where n = 439041101 and ds = "[1, 10, 2, 11, 3, 12, 4, 13]"
       and cs = "''1A2B3C4D''" and ps = "''photo.jpg''" and CurLine = "''photo.jpg 1A2B3C4D''"
       and CurSfvPath = "''list.sfv''" and fp = "''./photo.jpg''"]
  by (simp add: is_comment_def after_last_space_def before_last_space_def hex_digit_def
        hex_value_def path_defs)

lemma parse_spec_example:
  "parse_line ''/data/list.sfv'' ''photo.jpg 1A2B3C4D''
     = Inr (Some \<lparr>FilePath = ''/data/photo.jpg'', Checksum = 0x1A2B3C4D\<rparr>)"
  using parse_line_value [where n = 439041101 and ds = "[1, 10, 2, 11, 3, 12, 4, 13]"
       and cs = "''1A2B3C4D''" and ps = "''photo.jpg''" and CurLine = "''photo.jpg 1A2B3C4D''"
       and CurSfvPath = "''/data/list.sfv''" and fp = "''/data/photo.jpg''"]
  by (simp add: is_comment_def after_last_space_def before_last_space_def hex_digit_def
        hex_value_def path_defs)

lemma parse_line_FilePath:
  assumes "length CurLine < 2 ^ 64" and "parse_line CurSfvPath CurLine = Inr (Some entry)"
  shows "FilePath entry
           = path_append (if has_parent_path CurSfvPath then parent_path CurSfvPath else ''.'')
               (before_last_space CurLine)"
  using assms(2) unfolding parse_line_eq [OF assms(1)]
  by (auto split: if_splits prod.splits)

lemma path_append_dot: "\<not> is_absolute q \<Longrightarrow> path_append ''.'' q = ''./'' @ q"
  by (simp add: path_append_def has_filename_def)

text \<open>
  Claim C5 as stated fails for a checklist path without a parent: the entry's
  path is not the bare relative path but that path appended to \<open>.\<close>.
\<close>

theorem bare_checklist_counterexample:
  "\<not> has_parent_path ''list.sfv''
   \<and> parse_line ''list.sfv'' ''photo.jpg 1A2B3C4D''
       = Inr (Some \<lparr>FilePath = ''./photo.jpg'', Checksum = 0x1A2B3C4D\<rparr>)
   \<and> before_last_space ''photo.jpg 1A2B3C4D'' = ''photo.jpg''
   \<and> ''./photo.jpg'' \<noteq> ''photo.jpg''"
  by (simp add: parse_bare_checklist before_last_space_def path_defs)

text \<open>
  Claim C5, as amended. The path of the entry of a valid line is the text before
  the last space appended to the parent of the checklist path when there is
  one, and appended to \<open>.\<close> when there is none, which for a relative path is
  that path after \<open>./\<close>. The line \<open>photo.jpg 1A2B3C4D\<close> of the checklist
  \<open>/data/list.sfv\<close> gives the path \<open>/data/photo.jpg\<close> and the checksum
  \<open>0x1A2B3C4D\<close>.
\<close>

theorem resolved_path_of_entry:
  assumes "length CurLine < 2 ^ 64" and "parse_line CurSfvPath CurLine = Inr (Some entry)"
  shows "(has_parent_path CurSfvPath \<longrightarrow>
            FilePath entry = path_append (parent_path CurSfvPath) (before_last_space CurLine))
       \<and> (\<not> has_parent_path CurSfvPath \<longrightarrow>
            FilePath entry = path_append ''.'' (before_last_space CurLine))
       \<and> (\<not> has_parent_path CurSfvPath \<and> \<not> is_absolute (before_last_space CurLine) \<longrightarrow>
            FilePath entry = ''./'' @ before_last_space CurLine)
       \<and> parse_line ''/data/list.sfv'' ''photo.jpg 1A2B3C4D''
            = Inr (Some \<lparr>FilePath = ''/data/photo.jpg'', Checksum = 0x1A2B3C4D\<rparr>)"
  using parse_line_FilePath [OF assms] by (simp add: path_append_dot parse_spec_example)

theorem resolved_path_of_entry_witness:
  "FilePath \<lparr>FilePath = ''./photo.jpg'', Checksum = 0x1A2B3C4D\<rparr>
     = ''./'' @ before_last_space ''photo.jpg 1A2B3C4D''
   \<and> parse_line ''list.sfv'' ''photo.jpg 1A2B3C4D''
       = Inr (Some \<lparr>FilePath = ''./photo.jpg'', Checksum = 0x1A2B3C4D\<rparr>)"
  using resolved_path_of_entry [of "''photo.jpg 1A2B3C4D''" "''list.sfv''"
      "\<lparr>FilePath = ''./photo.jpg'', Checksum = 0x1A2B3C4D\<rparr>", OF _ parse_bare_checklist]
  by (simp add: parse_bare_checklist before_last_space_def)

text \<open>
  Claim C6. The line a worker prints for an entry carries the verdict OK exactly
  when \<^verbatim>\<open>ChecksumFile\<close> returned the expected checksum, FAIL exactly when it
  returned another checksum, and ERROR exactly when it returned nothing; the
  worker prints that line for the entry it claimed.
\<close>

theorem verdict_by_checksum:
  "(verdict_of (report CurEntry CurSum) = Some OK) = (CurSum = Some (Checksum CurEntry))
   \<and> (verdict_of (report CurEntry CurSum) = Some FAIL)
       = (\<exists>c. CurSum = Some c \<and> c \<noteq> Checksum CurEntry)
   \<and> (verdict_of (report CurEntry CurSum) = Some ERROR) = (CurSum = None)
   \<and> worker_output env Checkqueue EntryIndex
       = report (Checkqueue ! EntryIndex)
           (fst (ChecksumFile (files env (FilePath (Checkqueue ! EntryIndex)))))"
  by (cases CurSum) (auto simp: report_def verdict_of_def worker_output_def Let_def)

theorem verdict_by_checksum_witness:
  "verdict_of (report \<lparr>FilePath = ''/data/photo.jpg'', Checksum = 0x1A2B3C4D\<rparr> (Some 0xCBF43926))
     = Some FAIL"
  using verdict_by_checksum [of "\<lparr>FilePath = ''/data/photo.jpg'', Checksum = 0x1A2B3C4D\<rparr>"
      "Some 0xCBF43926"]
  by simp

subsection \<open>The work-dispatch loop\<close>

lemma claimed_le_size: "(\<Sum>w\<in>#M. claimed w) \<le> size M"
proof (induction M)
  case empty
  then show ?case by simp
next
  case (add x M)
  have "claimed x \<le> 1" by (cases x) simp_all
  with add show ?case by simp
qed

lemma inv_core_executed_le:
  assumes "inv_core N c E M"
  shows "size E \<le> N"
proof -
  have "size (E + (\<Sum>w\<in>#M. held_in N w)) = min c N"
    using assms by (simp add: inv_core_def)
  then show ?thesis by simp
qed

lemma mset_upt_Suc: "mset [0..<Suc c] = add_mset c (mset [0..<c])"
  by (simp del: mset_upt)

lemma inv_core_claim:
  assumes "inv_core N c E (add_mset Claiming R)"
  shows "inv_core N (Suc c) E (add_mset (Holding c) R)"
proof (cases "c < N")
  case True
  then have "min (Suc c) N = Suc c" and "min c N = c" by simp_all
  with assms True show ?thesis
    by (simp add: inv_core_def mset_upt_Suc del: mset_upt)
next
  case False
  then have "min (Suc c) N = N" and "min c N = N" by simp_all
  with assms False show ?thesis
    by (simp add: inv_core_def del: mset_upt)
qed

lemma inv_core_cursor_bound:
  assumes "inv_core N c E (add_mset Claiming R)"
  shows "c \<le> N + size R"
  using inv_core_executed_le [OF assms] assms claimed_le_size [of R]
  by (simp add: inv_core_def)

lemma inv_core_execute:
  assumes "inv_core N c E (add_mset (Holding i) R)" and "i < N"
  shows "inv_core N c (add_mset i E) (add_mset Claiming R)"
  using assms by (simp add: inv_core_def)

lemma inv_core_exit:
  assumes "inv_core N c E (add_mset (Holding i) R)" and "N \<le> i"
  shows "inv_core N c E (add_mset Exited R)"
  using assms by (simp add: inv_core_def)

lemma mset_nth_split:
  assumes "w < length ws"
  shows "mset ws = add_mset (ws ! w) (mset ws - {#ws ! w#})"
    and "mset (ws[w := x]) = add_mset x (mset ws - {#ws ! w#})"
    and "size (mset ws - {#ws ! w#}) = length ws - 1"
  using assms by (simp_all add: mset_update size_Diff_singleton)

lemma worker_step_length [simp]: "length (workers (worker_step N w s)) = length (workers s)"
  by (simp add: worker_step_def split: worker.splits)

lemma worker_step_idle: "length (workers s) \<le> w \<Longrightarrow> worker_step N w s = s"
  by (simp add: worker_step_def)

lemma cursor_no_wrap:
  assumes "dispatch_inv N s" and "N + length (workers s) < 2 ^ 64"
    and "w < length (workers s)" and "workers s ! w = Claiming"
  shows "(QueueLock s + 1) mod 2 ^ 64 = Suc (QueueLock s)"
proof -
  let ?R = "mset (workers s) - {#workers s ! w#}"
  have "inv_core N (QueueLock s) (mset (executed_indices s)) (add_mset Claiming ?R)"
    using assms(1) mset_nth_split(1) [OF assms(3)] assms(4) by (simp add: dispatch_inv_def)
  then have "QueueLock s \<le> N + size ?R" by (rule inv_core_cursor_bound)
  then have "QueueLock s + 1 < 2 ^ 64"
    using assms(2,3) mset_nth_split(3) [OF assms(3)] by simp
  then show ?thesis by simp
qed

lemma dispatch_inv_step:
  assumes "dispatch_inv N s" and "N + length (workers s) < 2 ^ 64"
  shows "dispatch_inv N (worker_step N w s)"
proof (cases "w < length (workers s)")
  case False
  then show ?thesis using assms(1) by (simp add: worker_step_idle)
next
  case True
  let ?R = "mset (workers s) - {#workers s ! w#}"
  note sp = mset_nth_split [OF True]
  have core: "inv_core N (QueueLock s) (mset (executed_indices s))
                (add_mset (workers s ! w) ?R)"
    using assms(1) sp(1) by (simp add: dispatch_inv_def)
  show ?thesis
  proof (cases "workers s ! w")
    case Claiming
    have "inv_core N (Suc (QueueLock s)) (mset (executed_indices s))
            (add_mset (Holding (QueueLock s)) ?R)"
      using core Claiming by (simp add: inv_core_claim)
    then show ?thesis
      using True Claiming cursor_no_wrap [OF assms True Claiming]
      by (simp add: worker_step_def dispatch_inv_def executed_indices_def sp(2))
  next
    case (Holding i)
    show ?thesis
    proof (cases "i < N")
      case True
      have "inv_core N (QueueLock s) (add_mset i (mset (executed_indices s)))
              (add_mset Claiming ?R)"
        using core Holding True by (simp add: inv_core_execute)
      then show ?thesis
        using \<open>w < length (workers s)\<close> Holding True
        by (simp add: worker_step_def dispatch_inv_def executed_indices_def sp(2))
    next
      case False
      have "inv_core N (QueueLock s) (mset (executed_indices s)) (add_mset Exited ?R)"
        using core Holding False by (simp add: inv_core_exit)
      then show ?thesis
        using True Holding False
        by (simp add: worker_step_def dispatch_inv_def executed_indices_def sp(2))
    qed
  next
    case Exited
    then show ?thesis using assms(1) True by (simp add: worker_step_def)
  qed
qed

lemma all_claiming_sums:
  "(\<Sum>w\<in>#mset (replicate T Claiming). held_in N w) = {#}"
  "(\<Sum>w\<in>#mset (replicate T Claiming). claimed w) = 0"
  by (induction T) simp_all

lemma dispatch_inv_init: "dispatch_inv N (dispatch_init T)"
  by (simp add: dispatch_inv_def dispatch_init_def executed_indices_def inv_core_def
      all_claiming_sums)

lemma run_length [simp]: "length (workers (run N sched s)) = length (workers s)"
  by (induction sched arbitrary: s) simp_all

lemma dispatch_inv_run:
  assumes "dispatch_inv N s" and "N + length (workers s) < 2 ^ 64"
  shows "dispatch_inv N (run N sched s)"
  using assms
proof (induction sched arbitrary: s)
  case Nil
  then show ?case by simp
next
  case (Cons w sched)
  then show ?case by (simp add: dispatch_inv_step)
qed

lemma run_append: "run N (xs @ ys) s = run N ys (run N xs s)"
  by (induction xs arbitrary: s) simp_all

lemma distinct_count_le_1: "distinct xs \<longleftrightarrow> (\<forall>a. count (mset xs) a \<le> 1)"
proof (induction xs)
  case Nil
  then show ?case by simp
next
  case (Cons x xs)
  show ?case
  proof
    assume d: "distinct (x # xs)"
    then have "count (mset xs) x = 0" by (simp add: count_eq_zero_iff)
    with d Cons show "\<forall>a. count (mset (x # xs)) a \<le> 1" by simp
  next
    assume c: "\<forall>a. count (mset (x # xs)) a \<le> 1"
    then have "count (mset (x # xs)) x \<le> 1" by blast
    then have "count (mset xs) x = 0" by simp
    then have nx: "x \<notin> set xs" by (simp add: count_eq_zero_iff)
    have "count (mset xs) a \<le> 1" for a
    proof -
      have "count (mset xs) a \<le> count (mset (x # xs)) a" by simp
      also have "\<dots> \<le> 1" using c by blast
      finally show ?thesis .
    qed
    with Cons nx show "distinct (x # xs)" by simp
  qed
qed

lemma mset_sub_distinct:
  assumes "mset xs \<subseteq># mset ys" and "distinct ys"
  shows "distinct xs"
proof -
  have "count (mset xs) a \<le> 1" for a
  proof -
    have "count (mset xs) a \<le> count (mset ys) a"
      using assms(1) by (rule mset_subset_eq_count)
    also have "\<dots> \<le> 1" using assms(2) by (simp add: distinct_count_le_1)
    finally show ?thesis .
  qed
  then show ?thesis by (simp add: distinct_count_le_1)
qed

lemma upt_min_sub: "mset [0..<min c N] \<subseteq># mset [0..<N]"
  by (simp add: subset_imp_msubset_mset_set)

lemma dispatch_inv_executed_sub:
  assumes "dispatch_inv N s"
  shows "mset (executed_indices s) \<subseteq># mset [0..<N]"
proof -
  have "mset (executed_indices s) \<subseteq># mset [0..<min (QueueLock s) N]"
    using assms unfolding dispatch_inv_def inv_core_def
    by (metis mset_subset_eq_add_left)
  then show ?thesis using upt_min_sub by (rule subset_mset.order_trans)
qed

lemma all_exited_sums:
  assumes "list_all (\<lambda>w. w = Exited) ws"
  shows "(\<Sum>w\<in>#mset ws. held_in N w) = {#}" and "(\<Sum>w\<in>#mset ws. claimed w) = length ws"
  using assms by (induction ws) simp_all

lemma dispatch_inv_final:
  assumes "dispatch_inv N s" and "all_exited s" and "workers s \<noteq> []"
  shows "mset (executed_indices s) = mset [0..<N]"
proof -
  let ?E = "mset (executed_indices s)"
  have ex: "list_all (\<lambda>w. w = Exited) (workers s)"
    using assms(2) by (simp add: all_exited_def)
  have e: "?E = mset [0..<min (QueueLock s) N]"
    using assms(1) all_exited_sums(1) [OF ex, of N] by (simp add: dispatch_inv_def inv_core_def)
  have c: "QueueLock s = size ?E + length (workers s)"
    using assms(1) all_exited_sums(2) [OF ex] by (simp add: dispatch_inv_def inv_core_def)
  have "size ?E = size (mset [0..<min (QueueLock s) N])" by (simp only: e)
  then have "size ?E = min (QueueLock s) N" by simp
  with c assms(3) have "min (QueueLock s) N = N" by (cases "workers s") simp_all
  with e show ?thesis by simp
qed

lemma steps_done_step:
  assumes "dispatch_inv N s" and "N + length (workers s) < 2 ^ 64"
    and "w < length (workers s)" and "workers s ! w \<noteq> Exited"
  shows "steps_done (worker_step N w s) = Suc (steps_done s)"
proof -
  note sp = mset_nth_split [OF assms(3)]
  have cnt: "count (mset (workers s)) Exited = count (mset (workers s) - {#workers s ! w#}) Exited"
    using assms(4) by (subst sp(1)) simp
  show ?thesis
  proof (cases "workers s ! w")
    case Claiming
    then show ?thesis
      using assms(3) cnt cursor_no_wrap [OF assms(1-3) Claiming]
      by (simp add: worker_step_def steps_done_def sp(2))
  next
    case (Holding i)
    then show ?thesis
      using assms(3) cnt by (simp add: worker_step_def steps_done_def sp(2))
  next
    case Exited
    with assms(4) show ?thesis by simp
  qed
qed

lemma count_le_length: "count (mset xs) x \<le> length xs"
  by (induction xs) simp_all

lemma steps_done_bound:
  assumes "dispatch_inv N s"
  shows "steps_done s \<le> 2 * (N + length (workers s))"
proof -
  have core: "inv_core N (QueueLock s) (mset (executed_indices s)) (mset (workers s))"
    using assms by (simp add: dispatch_inv_def)
  have e: "length (executed s) \<le> N"
    using inv_core_executed_le [OF core] by (simp add: executed_indices_def)
  have "QueueLock s = length (executed s) + (\<Sum>w\<in>#mset (workers s). claimed w)"
    using core by (simp add: inv_core_def executed_indices_def)
  then have c: "QueueLock s \<le> N + length (workers s)"
    using e claimed_le_size [of "mset (workers s)"] by simp
  have x: "count (mset (workers s)) Exited \<le> length (workers s)"
    by (rule count_le_length)
  show ?thesis using e c x by (simp add: steps_done_def)
qed

lemma not_all_exited:
  assumes "\<not> all_exited s"
  obtains w where "w < length (workers s)" and "workers s ! w \<noteq> Exited"
proof -
  from assms obtain x where "x \<in> set (workers s)" and "x \<noteq> Exited"
    by (auto simp: all_exited_def list_all_iff)
  then show ?thesis using that by (auto simp: in_set_conv_nth)
qed

lemma can_complete:
  assumes "dispatch_inv N s" and "N + length (workers s) < 2 ^ 64"
  shows "\<exists>sched. length sched \<le> 2 * (N + length (workers s)) - steps_done s
                \<and> all_exited (run N sched s)"
  using assms
proof (induction "2 * (N + length (workers s)) - steps_done s" arbitrary: s rule: less_induct)
  case less
  show ?case
  proof (cases "all_exited s")
    case True
    then have "length [] \<le> 2 * (N + length (workers s)) - steps_done s \<and> all_exited (run N [] s)"
      by simp
    then show ?thesis by blast
  next
    case False
    then obtain w where w: "w < length (workers s)" "workers s ! w \<noteq> Exited"
      by (rule not_all_exited)
    let ?s = "worker_step N w s"
    have inv: "dispatch_inv N ?s" using less.prems by (rule dispatch_inv_step)
    have sd: "steps_done ?s = Suc (steps_done s)"
      using less.prems w by (rule steps_done_step)
    have bd: "steps_done ?s \<le> 2 * (N + length (workers s))"
      using steps_done_bound [OF inv] by simp
    have "2 * (N + length (workers ?s)) - steps_done ?s < 2 * (N + length (workers s)) - steps_done s"
      using sd bd by simp
    from less.hyps [OF this inv] less.prems(2)
    obtain sched where l: "length sched \<le> 2 * (N + length (workers ?s)) - steps_done ?s"
      and a: "all_exited (run N sched ?s)" by auto
    have "length (w # sched) \<le> 2 * (N + length (workers s)) - steps_done s"
      using l sd bd by simp
    moreover have "all_exited (run N (w # sched) s)" using a by simp
    ultimately show ?thesis by blast
  qed
qed

lemma exit_on_out_of_range:
  assumes "w < length (workers s)" and "workers s ! w = Holding i" and "N \<le> i"
  shows "workers (worker_step N w s) ! w = Exited"
    and "executed (worker_step N w s) = executed s"
    and "QueueLock (worker_step N w s) = QueueLock s"
  using assms by (simp_all add: worker_step_def)

text \<open>
  Claim C1. For \<open>N\<close> jobs and \<open>T\<close> workers, \<open>T\<close> at least 1 and \<open>N + T\<close> below
  \<open>2^64\<close> so that the cursor cannot wrap, and for every schedule: no job index is
  run twice and only indices below \<open>N\<close> are run; once every worker has returned
  the indices run are exactly \<open>0, ..., N - 1\<close>, each once; from every point the run
  can be brought to its end, within \<open>2 * (N + T)\<close> steps; a worker that holds an
  index of \<open>N\<close> or more returns at its next step without running a job; and
  every step of a worker that has not returned counts, of which there are
  \<open>2 * (N + T)\<close> at most, so that no run goes on for ever.
\<close>

theorem each_index_executed_exactly_once:
  assumes "1 \<le> T" and "N + T < 2 ^ 64"
  shows "distinct (executed_indices (run N sched (dispatch_init T)))
       \<and> set (executed_indices (run N sched (dispatch_init T))) \<subseteq> {0..<N}
       \<and> (all_exited (run N sched (dispatch_init T)) \<longrightarrow>
            mset (executed_indices (run N sched (dispatch_init T))) = mset [0..<N])
       \<and> (\<exists>more. length more \<le> 2 * (N + T)
             \<and> all_exited (run N (sched @ more) (dispatch_init T)))
       \<and> (\<forall>w i. w < T \<and> workers (run N sched (dispatch_init T)) ! w = Holding i \<and> N \<le> i \<longrightarrow>
            workers (worker_step N w (run N sched (dispatch_init T))) ! w = Exited
            \<and> executed (worker_step N w (run N sched (dispatch_init T)))
                = executed (run N sched (dispatch_init T)))
       \<and> steps_done (run N sched (dispatch_init T)) \<le> 2 * (N + T)
       \<and> (\<forall>w. w < T \<and> workers (run N sched (dispatch_init T)) ! w \<noteq> Exited \<longrightarrow>
            steps_done (worker_step N w (run N sched (dispatch_init T)))
              = Suc (steps_done (run N sched (dispatch_init T))))"
proof -
  let ?s = "run N sched (dispatch_init T)"
  have len0: "length (workers (dispatch_init T)) = T" by (simp add: dispatch_init_def)
  then have len: "length (workers ?s) = T" by simp
  have inv: "dispatch_inv N ?s"
    using dispatch_inv_init assms(2) len0 by (simp add: dispatch_inv_run)
  have sub: "mset (executed_indices ?s) \<subseteq># mset [0..<N]"
    using inv by (rule dispatch_inv_executed_sub)
  have 1: "distinct (executed_indices ?s)"
    using sub by (rule mset_sub_distinct) simp
  have "set (executed_indices ?s) \<subseteq> set [0..<N]"
    using sub by (rule set_mset_mono [of "mset _" "mset _", simplified])
  then have 2: "set (executed_indices ?s) \<subseteq> {0..<N}" by simp
  have 3: "all_exited ?s \<longrightarrow> mset (executed_indices ?s) = mset [0..<N]"
  proof
    assume fin: "all_exited ?s"
    have "workers ?s \<noteq> []" using len assms(1) by (cases "workers ?s") simp_all
    with inv fin show "mset (executed_indices ?s) = mset [0..<N]"
      by (rule dispatch_inv_final)
  qed
  obtain more where "length more \<le> 2 * (N + length (workers ?s)) - steps_done ?s"
    and "all_exited (run N more ?s)"
    using can_complete [OF inv] assms(2) len by auto
  then have "length more \<le> 2 * (N + T) \<and> all_exited (run N (sched @ more) (dispatch_init T))"
    using len by (simp add: run_append)
  then have 4: "\<exists>more. length more \<le> 2 * (N + T)
             \<and> all_exited (run N (sched @ more) (dispatch_init T))" by blast
  have 5: "\<forall>w i. w < T \<and> workers ?s ! w = Holding i \<and> N \<le> i \<longrightarrow>
            workers (worker_step N w ?s) ! w = Exited
            \<and> executed (worker_step N w ?s) = executed ?s"
    using len by (simp add: exit_on_out_of_range)
  have 6: "steps_done ?s \<le> 2 * (N + T)"
    using steps_done_bound [OF inv] len by simp
  have 7: "\<forall>w. w < T \<and> workers ?s ! w \<noteq> Exited \<longrightarrow>
            steps_done (worker_step N w ?s) = Suc (steps_done ?s)"
    using steps_done_step [OF inv] assms(2) len by simp
  from 1 2 3 4 5 6 7 show ?thesis by blast
qed

lemma dispatch_init_2: "dispatch_init 2 = \<lparr>QueueLock = 0, workers = [Claiming, Claiming], executed = []\<rparr>"
  by (simp add: dispatch_init_def numeral_2_eq_2)

lemma run_example:
  "run 3 [0, 1, 0, 1, 0, 1, 1, 0, 0, 0] (dispatch_init 2)
     = \<lparr>QueueLock = 5, workers = [Exited, Exited], executed = [(0, 0), (1, 1), (0, 2)]\<rparr>"
  by (simp add: worker_step_def dispatch_init_2)

theorem each_index_executed_exactly_once_witness:
  "all_exited (run 3 [0, 1, 0, 1, 0, 1, 1, 0, 0, 0] (dispatch_init 2))
   \<and> executed_indices (run 3 [0, 1, 0, 1, 0, 1, 1, 0, 0, 0] (dispatch_init 2)) = [0, 1, 2]
   \<and> mset (executed_indices (run 3 [0, 1, 0, 1, 0, 1, 1, 0, 0, 0] (dispatch_init 2)))
       = mset [0..<3]"
proof -
  let ?s = "run 3 [0, 1, 0, 1, 0, 1, 1, 0, 0, 0] (dispatch_init 2)"
  have a: "all_exited ?s"
    unfolding run_example by (simp add: all_exited_def)
  have b: "executed_indices ?s = [0, 1, 2]"
    unfolding run_example by (simp add: executed_indices_def)
  have "(1::nat) \<le> 2" and "(3::nat) + 2 < 2 ^ 64" by simp_all
  then have "all_exited ?s \<longrightarrow> mset (executed_indices ?s) = mset [0..<3]"
    using each_index_executed_exactly_once [of 2 3 "[0, 1, 0, 1, 0, 1, 1, 0, 0, 0]"] by blast
  with a b show ?thesis by blast
qed

subsection \<open>Check: the exit status\<close>

lemma queue_lines_no_throw: "queue_lines CurSfvPath ls Checkqueue \<noteq> Inl e"
proof (induction ls arbitrary: Checkqueue)
  case Nil
  then show ?case by simp
next
  case (Cons CurLine ls)
  then show ?case
    using parse_line_no_throw [of CurSfvPath CurLine]
    by (cases "parse_line CurSfvPath CurLine") (auto split: option.splits)
qed

lemma queue_files_cases:
  "(\<exists>p\<in>set ps. checklist p = None \<and> queue_files checklist ps Checkqueue = Inl (OpenFailed p))
   \<or> ((\<forall>p\<in>set ps. checklist p \<noteq> None) \<and> (\<exists>q. queue_files checklist ps Checkqueue = Inr q))"
proof (induction ps arbitrary: Checkqueue)
  case Nil
  then show ?case by simp
next
  case (Cons CurSfvPath ps)
  show ?case
  proof (cases "checklist CurSfvPath")
    case None
    then show ?thesis by simp
  next
    case (Some ls)
    obtain q where q: "queue_lines CurSfvPath ls Checkqueue = Inr q"
      using queue_lines_no_throw [of CurSfvPath ls Checkqueue]
      by (cases "queue_lines CurSfvPath ls Checkqueue") auto
    show ?thesis using Cons [of q] Some q by auto
  qed
qed

lemma Check_open_failed:
  assumes "queue_files (checklists env) (InputFiles CurSettings) [] = Inl (OpenFailed p)"
  shows "Check env CurSettings sched = Some (Return EXIT_FAILURE, [FailedToOpen p])"
  using assms by (simp add: Check_def)

lemma Check_queued:
  assumes "queue_files (checklists env) (InputFiles CurSettings) [] = Inr q"
  shows "Check env CurSettings sched =
           (if all_exited (run (length q) sched (dispatch_init (Threads CurSettings)))
            then Some (Return EXIT_SUCCESS,
                       map (worker_output env q)
                         (executed_indices
                            (run (length q) sched (dispatch_init (Threads CurSettings)))))
            else None)"
  using assms by (simp add: Check_def Let_def)

lemma Check_completes:
  assumes "queue_files (checklists env) (InputFiles CurSettings) [] = Inr q"
    and "length q + Threads CurSettings < 2 ^ 64"
  shows "\<exists>sched out. Check env CurSettings sched = Some (Return EXIT_SUCCESS, out)"
proof -
  let ?s = "dispatch_init (Threads CurSettings)"
  have "length (workers ?s) = Threads CurSettings" by (simp add: dispatch_init_def)
  with assms(2) obtain sched where "all_exited (run (length q) sched ?s)"
    using can_complete [OF dispatch_inv_init, of "length q" "Threads CurSettings"] by auto
  then show ?thesis by (auto simp: Check_queued [OF assms(1)])
qed

text \<open>
  Claim C7. When \<^verbatim>\<open>Check\<close> returns, it returns \<^verbatim>\<open>EXIT_SUCCESS\<close>, which is 0, or
  \<^verbatim>\<open>EXIT_FAILURE\<close>, which is not, and the latter exactly when one of the input
  files cannot be opened; whatever the verdicts printed. When an input file
  cannot be opened the call prints the message for such a file and nothing else,
  under every schedule: no worker ran. When all can be opened, some schedule
  lets the call return.
\<close>

theorem check_exit_status:
  "(Check env CurSettings sched = Some (r, out) \<longrightarrow>
      (r = Return EXIT_SUCCESS \<or> r = Return EXIT_FAILURE)
      \<and> ((r \<noteq> Return EXIT_SUCCESS)
          = (\<exists>p\<in>set (InputFiles CurSettings). checklists env p = None)))
   \<and> ((\<exists>p\<in>set (InputFiles CurSettings). checklists env p = None) \<longrightarrow>
        (\<exists>p\<in>set (InputFiles CurSettings). checklists env p = None
           \<and> Check env CurSettings sched = Some (Return EXIT_FAILURE, [FailedToOpen p])))
   \<and> (queue_files (checklists env) (InputFiles CurSettings) [] = Inr q
        \<and> length q + Threads CurSettings < 2 ^ 64 \<longrightarrow>
        (\<exists>sched' out'. Check env CurSettings sched' = Some (Return EXIT_SUCCESS, out')))
   \<and> EXIT_SUCCESS = 0 \<and> EXIT_FAILURE \<noteq> 0"
proof -
  let ?bad = "\<exists>p\<in>set (InputFiles CurSettings). checklists env p = None"
  have ne: "Return EXIT_FAILURE \<noteq> Return EXIT_SUCCESS"
    by (simp add: EXIT_SUCCESS_def EXIT_FAILURE_def)
  consider
    (failed) p where "p \<in> set (InputFiles CurSettings)" "checklists env p = None"
      "queue_files (checklists env) (InputFiles CurSettings) [] = Inl (OpenFailed p)"
  | (queued) q' where "\<forall>p\<in>set (InputFiles CurSettings). checklists env p \<noteq> None"
      "queue_files (checklists env) (InputFiles CurSettings) [] = Inr q'"
    using queue_files_cases [of "InputFiles CurSettings" "checklists env" "[]"] by blast
  then have 1: "Check env CurSettings sched = Some (r, out) \<longrightarrow>
      (r = Return EXIT_SUCCESS \<or> r = Return EXIT_FAILURE)
      \<and> ((r \<noteq> Return EXIT_SUCCESS) = ?bad)"
  proof cases
    case failed
    then show ?thesis using ne by (auto simp: Check_open_failed)
  next
    case queued
    then show ?thesis by (auto simp: Check_queued split: if_splits)
  qed
  have 2: "?bad \<longrightarrow> (\<exists>p\<in>set (InputFiles CurSettings). checklists env p = None
           \<and> Check env CurSettings sched = Some (Return EXIT_FAILURE, [FailedToOpen p]))"
    using queue_files_cases [of "InputFiles CurSettings" "checklists env" "[]"]
    by (auto simp: Check_open_failed)
  have 3: "queue_files (checklists env) (InputFiles CurSettings) [] = Inr q
        \<and> length q + Threads CurSettings < 2 ^ 64 \<longrightarrow>
        (\<exists>sched' out'. Check env CurSettings sched' = Some (Return EXIT_SUCCESS, out'))"
    using Check_completes by blast
  have 4: "EXIT_SUCCESS = 0 \<and> EXIT_FAILURE \<noteq> 0"
    by (simp add: EXIT_SUCCESS_def EXIT_FAILURE_def)
  from 1 2 3 4 show ?thesis by blast
qed

lemma parse_comment: "parse_line ''/data/list.sfv'' ''; made by hand'' = Inr None"
  by (simp add: parse_line_def)

lemma parse_gone:
  "parse_line ''/data/list.sfv'' ''gone.bin 00000000''
     = Inr (Some \<lparr>FilePath = ''/data/gone.bin'', Checksum = 0\<rparr>)"
  using parse_line_value [where n = 0 and ds = "[0, 0, 0, 0, 0, 0, 0, 0]"
       and cs = "''00000000''" and ps = "''gone.bin''" and CurLine = "''gone.bin 00000000''"
       and CurSfvPath = "''/data/list.sfv''" and fp = "''/data/gone.bin''"]
  by (simp add: is_comment_def after_last_space_def before_last_space_def hex_digit_def
        hex_value_def path_defs)

lemma example_queue:
  "queue_files (checklists example_env) [''/data/list.sfv''] []
     = Inr [\<lparr>FilePath = ''/data/photo.jpg'', Checksum = 0x1A2B3C4D\<rparr>,
            \<lparr>FilePath = ''/data/gone.bin'', Checksum = 0\<rparr>]"
proof -
  have c: "checklists example_env ''/data/list.sfv''
             = Some [''; made by hand'', ''photo.jpg 1A2B3C4D'', ''gone.bin 00000000'']"
    by (simp add: example_env_def)
  have l: "queue_lines ''/data/list.sfv''
             [''; made by hand'', ''photo.jpg 1A2B3C4D'', ''gone.bin 00000000''] []
     = Inr [\<lparr>FilePath = ''/data/photo.jpg'', Checksum = 0x1A2B3C4D\<rparr>,
            \<lparr>FilePath = ''/data/gone.bin'', Checksum = 0\<rparr>]"
    by (simp add: parse_comment parse_spec_example parse_gone)
  show ?thesis by (simp add: c l del: queue_lines.simps)
qed

lemma example_run:
  "run 2 [0, 0, 0, 0, 0, 0] (dispatch_init 1)
     = \<lparr>QueueLock = 3, workers = [Exited], executed = [(0, 0), (0, 1)]\<rparr>"
  by (simp add: worker_step_def dispatch_init_def)

lemma example_check:
  "Check example_env (example_settings [''/data/list.sfv''] 1) [0, 0, 0, 0, 0, 0]
     = Some (Return EXIT_SUCCESS,
             [ResultLine ''/data/photo.jpg'' 0x1A2B3C4D (Some 0xCBF43926) FAIL,
              ResultLine ''/data/gone.bin'' 0 None ERROR])"
proof -
  have q: "queue_files (checklists example_env)
             (InputFiles (example_settings [''/data/list.sfv''] 1)) []
     = Inr [\<lparr>FilePath = ''/data/photo.jpg'', Checksum = 0x1A2B3C4D\<rparr>,
            \<lparr>FilePath = ''/data/gone.bin'', Checksum = 0\<rparr>]"
    by (simp add: example_settings_def example_queue del: queue_files.simps)
  have t: "Threads (example_settings [''/data/list.sfv''] 1) = 1"
    by (simp add: example_settings_def)
  have l: "length [\<lparr>FilePath = ''/data/photo.jpg'', Checksum = 0x1A2B3C4D\<rparr>,
            \<lparr>FilePath = ''/data/gone.bin'', Checksum = 0\<rparr>] = 2" by simp
  show ?thesis
    unfolding Check_queued [OF q] t l example_run
    by (simp add: all_exited_def executed_indices_def worker_output_def report_def
        ChecksumFile_def example_env_def crc_check_vector)
qed

theorem check_exit_status_witness:
  "Check example_env (example_settings [''/data/list.sfv'', ''missing.sfv''] 2) []
     = Some (Return EXIT_FAILURE, [FailedToOpen ''missing.sfv''])
   \<and> Check example_env (example_settings [''/data/list.sfv''] 1) [0, 0, 0, 0, 0, 0]
     = Some (Return EXIT_SUCCESS,
             [ResultLine ''/data/photo.jpg'' 0x1A2B3C4D (Some 0xCBF43926) FAIL,
              ResultLine ''/data/gone.bin'' 0 None ERROR])"
proof -
  let ?st = "example_settings [''/data/list.sfv'', ''missing.sfv''] 2"
  have "\<exists>p\<in>set (InputFiles ?st). checklists example_env p = None"
    by (simp add: example_settings_def example_env_def)
  then obtain p where p: "p \<in> set (InputFiles ?st)" "checklists example_env p = None"
    and c: "Check example_env ?st [] = Some (Return EXIT_FAILURE, [FailedToOpen p])"
    using check_exit_status [of example_env ?st "[]"] by blast
  from p have "p = ''missing.sfv''"
    by (auto simp: example_settings_def example_env_def split: if_splits)
  with c example_check show ?thesis by simp
qed

end
